theory Spec2Isabelle
  imports Main "HOL-Library.Word"
begin

unbundle bit_operations_syntax

section \<open>CustomBlockMemoryResource (src/include/memory_resource.hpp)\<close>

text \<open>
  \<^verbatim>\<open>std::size_t\<close> is modelled as a 64-bit word, so every \<open>+\<close> and \<open>-\<close> of the source
  wraps around as the unsigned arithmetic of the C++ code does. A \<^verbatim>\<open>std::byte*\<close> is the
  address it holds, again a 64-bit word; \<^verbatim>\<open>nullptr\<close> is the address 0.
\<close>

type_synonym size_t = "64 word"
type_synonym ptr = "64 word"

abbreviation (input) nullptr :: ptr where
  "nullptr \<equiv> 0"

text \<open>
  The exceptions the source throws, each with its message; \<^verbatim>\<open>std::bad_alloc\<close> carries
  none, and \<^verbatim>\<open>do_allocate\<close> throws the same \<^verbatim>\<open>std::bad_alloc\<close> at its alignment check and
  at its capacity check.
\<close>

datatype exn =
    invalid_argument string
  | bad_alloc
  | logic_error string
  | out_of_range string
  | dangling_pointer
  | terminate

text \<open>
  The last two are no C++ exceptions. \<open>dangling_pointer\<close> is the model's value for a
  dereference of a pointer that addresses no live object, which the source leaves
  undefined; \<open>terminate\<close> is the end of the program through \<^verbatim>\<open>std::terminate\<close>, when an
  exception leaves a function that is \<^verbatim>\<open>noexcept\<close>.
\<close>

text \<open>
  \<^verbatim>\<open>struct Block { std::size_t offset; std::size_t size; }\<close> and the data members of
  the class. The members \<^verbatim>\<open>capacity_\<close>, \<^verbatim>\<open>buffer_alignment_\<close>, \<^verbatim>\<open>buffer_\<close> and \<^verbatim>\<open>blocks_\<close>
  are the fields with the suffix \<open>_m\<close>; \<^verbatim>\<open>size\<close> is \<open>size_b\<close>.
\<close>

record Block =
  offset :: size_t
  size_b :: size_t

record CustomBlockMemoryResource =
  capacity_m :: size_t
  buffer_alignment_m :: size_t
  buffer_m :: ptr
  blocks_m :: "Block list"

text \<open>
  The constructor. The call \<^verbatim>\<open>::operator new(capacity_bytes, std::align_val_t(...))\<close>
  belongs to the C++ runtime; its outcome (the address of the new storage, or the
  exception it throws) is the parameter \<open>new_result\<close>.
\<close>

definition construct ::
  "size_t \<Rightarrow> size_t \<Rightarrow> exn + ptr \<Rightarrow> exn + CustomBlockMemoryResource" where
  "construct capacity_bytes buffer_alignment new_result =
     (if capacity_bytes = 0 then
        Inl (invalid_argument ''Capacity must be greater than zero'')
      else if (buffer_alignment AND (buffer_alignment - 1)) \<noteq> 0 then
        Inl (invalid_argument ''Alignment must be a power of two'')
      else
        (case new_result of
           Inl e \<Rightarrow> Inl e
         | Inr p \<Rightarrow> Inr \<lparr>capacity_m = capacity_bytes,
                         buffer_alignment_m = buffer_alignment,
                         buffer_m = p,
                         blocks_m = []\<rparr>))"

definition capacity :: "CustomBlockMemoryResource \<Rightarrow> size_t" where
  "capacity s = capacity_m s"

definition align_offset :: "size_t \<Rightarrow> size_t \<Rightarrow> size_t" where
  "align_offset off alignment =
     (if alignment = 0 then off
      else
        (let remainder = off mod alignment
         in if remainder = 0 then off else off + (alignment - remainder)))"

text \<open>
  \<^verbatim>\<open>alignof(std::max_align_t)\<close> is a constant of the platform, 16 on the 64-bit
  platforms whose \<^verbatim>\<open>size_t\<close> this theory models.
\<close>

definition alignof_max_align_t :: size_t where
  "alignof_max_align_t = 16"

text \<open>
  \<^verbatim>\<open>std::lower_bound\<close> with the comparator \<^verbatim>\<open>lhs.offset < rhs\<close>: the position of the first
  block whose offset is not below the value. The standard defines the result for
  ranges partitioned by the comparator, which the sorted index is; there the
  library's binary search and this left-to-right scan return the same position.
\<close>

fun lower_bound :: "Block list \<Rightarrow> size_t \<Rightarrow> nat" where
  "lower_bound [] rhs = 0"
| "lower_bound (lhs # rest) rhs =
     (if offset lhs < rhs then Suc (lower_bound rest rhs) else 0)"

text \<open>
  \<^verbatim>\<open>std::vector::insert(pos, value)\<close>. The vector keeps its elements in memory of its
  own, outside the arena, and its growth is taken to succeed.
\<close>

definition vector_insert :: "'a list \<Rightarrow> nat \<Rightarrow> 'a \<Rightarrow> 'a list" where
  "vector_insert xs pos x = take pos xs @ x # drop pos xs"

definition commit_block ::
  "CustomBlockMemoryResource \<Rightarrow> size_t \<Rightarrow> size_t \<Rightarrow> ptr \<times> CustomBlockMemoryResource" where
  "commit_block s off sz =
     (let new_block = \<lparr>offset = off, size_b = sz\<rparr>;
          insert_pos = lower_bound (blocks_m s) (offset new_block)
      in (buffer_m s + off, s\<lparr>blocks_m := vector_insert (blocks_m s) insert_pos new_block\<rparr>))"

text \<open>
  The scan of \<^verbatim>\<open>do_allocate\<close>: the \<^verbatim>\<open>for\<close> loop over \<^verbatim>\<open>blocks_\<close> followed by the check of
  the last gap against \<^verbatim>\<open>capacity_\<close>. The result is the offset passed to
  \<^verbatim>\<open>commit_block\<close>, or \<open>None\<close> where the source throws.
\<close>

fun do_allocate_scan ::
  "Block list \<Rightarrow> size_t \<Rightarrow> size_t \<Rightarrow> size_t \<Rightarrow> size_t \<Rightarrow> size_t option" where
  "do_allocate_scan [] current_offset bytes required_alignment cap =
     (let aligned_offset = align_offset current_offset required_alignment
      in if aligned_offset + bytes > cap then None else Some aligned_offset)"
| "do_allocate_scan (block # rest) current_offset bytes required_alignment cap =
     (let aligned_offset = align_offset current_offset required_alignment
      in if aligned_offset + bytes \<le> offset block then Some aligned_offset
         else do_allocate_scan rest (offset block + size_b block) bytes required_alignment cap)"

definition do_allocate ::
  "CustomBlockMemoryResource \<Rightarrow> size_t \<Rightarrow> size_t
     \<Rightarrow> (exn + ptr) \<times> CustomBlockMemoryResource" where
  "do_allocate s bytes0 alignment =
     (let bytes = (if bytes0 = 0 then 1 else bytes0);
          required_alignment = (if alignment = 0 then alignof_max_align_t else alignment)
      in if required_alignment > buffer_alignment_m s then (Inl bad_alloc, s)
         else
           (case do_allocate_scan (blocks_m s) 0 bytes required_alignment (capacity_m s) of
              None \<Rightarrow> (Inl bad_alloc, s)
            | Some aligned_offset \<Rightarrow>
                (let (p, s') = commit_block s aligned_offset bytes in (Inr p, s'))))"

text \<open>
  The search loop of \<^verbatim>\<open>do_deallocate\<close>: erase the first block whose offset is the one
  looked for; \<open>None\<close> where the loop ends without a match.
\<close>

fun erase_offset :: "Block list \<Rightarrow> size_t \<Rightarrow> Block list option" where
  "erase_offset [] off = None"
| "erase_offset (b # rest) off =
     (if offset b = off then Some rest
      else map_option ((#) b) (erase_offset rest off))"

definition do_deallocate ::
  "CustomBlockMemoryResource \<Rightarrow> ptr \<Rightarrow> size_t \<Rightarrow> size_t
     \<Rightarrow> (exn + unit) \<times> CustomBlockMemoryResource" where
  "do_deallocate s p size_hint alignment_hint =
     (if p = nullptr then (Inr (), s)
      else if p < buffer_m s \<or> p \<ge> buffer_m s + capacity_m s then
        (Inl (logic_error ''Pointer does not belong to this resource''), s)
      else
        (let off = p - buffer_m s
         in case erase_offset (blocks_m s) off of
              None \<Rightarrow> (Inl (logic_error ''Attempt to deallocate unmanaged block''), s)
            | Some bs \<Rightarrow> (Inr (), s\<lparr>blocks_m := bs\<rparr>)))"

text \<open>
  The calls a user of the resource can make through \<^verbatim>\<open>allocate\<close> and \<^verbatim>\<open>deallocate\<close> of
  \<^verbatim>\<open>std::pmr::memory_resource\<close>, which forward to \<^verbatim>\<open>do_allocate\<close> and \<^verbatim>\<open>do_deallocate\<close>.
  \<open>run\<close> makes a sequence of calls, the caller catching each exception and going on.
\<close>

datatype call = Allocate size_t size_t | Deallocate ptr size_t size_t

fun apply_call :: "CustomBlockMemoryResource \<Rightarrow> call \<Rightarrow> CustomBlockMemoryResource" where
  "apply_call s (Allocate bytes alignment) = snd (do_allocate s bytes alignment)"
| "apply_call s (Deallocate p size_hint alignment_hint) =
     snd (do_deallocate s p size_hint alignment_hint)"

definition run :: "CustomBlockMemoryResource \<Rightarrow> call list \<Rightarrow> CustomBlockMemoryResource" where
  "run s calls = foldl apply_call s calls"

section \<open>PmrQueue (src/include/pmr_queue.hpp)\<close>

text \<open>
  \<^verbatim>\<open>struct Node { T value; Node* next; }\<close>. The nodes live in storage obtained from the
  allocator; \<open>nodes_m\<close> maps the address of each live node to its contents. The data
  members \<^verbatim>\<open>head_\<close>, \<^verbatim>\<open>tail_\<close> and \<^verbatim>\<open>size_\<close> are the fields with the suffix \<open>_m\<close>.
  \<^verbatim>\<open>allocator_\<close> is a \<^verbatim>\<open>std::pmr::polymorphic_allocator\<close> over whatever memory resource the
  queue was given: the outcome of each call of \<^verbatim>\<open>allocator_.allocate(1)\<close> and of
  \<^verbatim>\<open>allocator_.deallocate(p, 1)\<close> is a parameter of the operation that makes the call.
  \<^verbatim>\<open>polymorphic_allocator::deallocate\<close> is \<^verbatim>\<open>noexcept\<close>: when the memory resource throws
  in it, the program ends.
\<close>

record 'a Node =
  value_n :: 'a
  next_n :: ptr

record 'a PmrQueue =
  nodes_m :: "ptr \<rightharpoonup> 'a Node"
  head_m :: ptr
  tail_m :: ptr
  size_m :: size_t

definition PmrQueue_new :: "'a PmrQueue" where
  "PmrQueue_new = \<lparr>nodes_m = Map.empty, head_m = nullptr, tail_m = nullptr, size_m = 0\<rparr>"

definition empty_q :: "'a PmrQueue \<Rightarrow> bool" where
  "empty_q q = (head_m q = nullptr)"

definition emplace :: "'a PmrQueue \<Rightarrow> exn + ptr \<Rightarrow> 'a \<Rightarrow> (exn + unit) \<times> 'a PmrQueue" where
  "emplace q alloc_result v =
     (case alloc_result of
        Inl e \<Rightarrow> (Inl e, q)
      | Inr new_node \<Rightarrow>
          (let q1 = q\<lparr>nodes_m := (nodes_m q)(new_node \<mapsto> \<lparr>value_n = v, next_n = nullptr\<rparr>)\<rparr>
           in if tail_m q1 = nullptr then
                (Inr (), q1\<lparr>head_m := new_node, tail_m := new_node, size_m := size_m q1 + 1\<rparr>)
              else
                (case nodes_m q1 (tail_m q1) of
                   None \<Rightarrow> (Inl dangling_pointer, q1)
                 | Some t \<Rightarrow>
                     (Inr (), q1\<lparr>nodes_m := (nodes_m q1)(tail_m q1 \<mapsto> t\<lparr>next_n := new_node\<rparr>),
                                 tail_m := new_node,
                                 size_m := size_m q1 + 1\<rparr>))))"

definition push :: "'a PmrQueue \<Rightarrow> exn + ptr \<Rightarrow> 'a \<Rightarrow> (exn + unit) \<times> 'a PmrQueue" where
  "push q alloc_result v = emplace q alloc_result v"

definition pop :: "'a PmrQueue \<Rightarrow> exn + unit \<Rightarrow> (exn + unit) \<times> 'a PmrQueue" where
  "pop q dealloc_result =
     (if empty_q q then (Inl (out_of_range ''Queue is empty''), q)
      else
        (let old_head = head_m q
         in case nodes_m q old_head of
              None \<Rightarrow> (Inl dangling_pointer, q)
            | Some n \<Rightarrow>
                (let q1 = q\<lparr>head_m := next_n n\<rparr>;
                     q2 = (if head_m q1 = nullptr then q1\<lparr>tail_m := nullptr\<rparr> else q1);
                     q3 = q2\<lparr>nodes_m := (nodes_m q2)(old_head := None)\<rparr>
                 in case dealloc_result of
                      Inl e \<Rightarrow> (Inl terminate, q3)
                    | Inr u \<Rightarrow> (Inr (), q3\<lparr>size_m := size_m q3 - 1\<rparr>))))"

definition front :: "'a PmrQueue \<Rightarrow> exn + 'a" where
  "front q =
     (if empty_q q then Inl (out_of_range ''Queue is empty'')
      else
        (case nodes_m q (head_m q) of
           None \<Rightarrow> Inl dangling_pointer
         | Some n \<Rightarrow> Inr (value_n n)))"

text \<open>
  Forward iteration, \<^verbatim>\<open>for (T v : queue)\<close>: from \<^verbatim>\<open>begin()\<close>, the iterator at \<^verbatim>\<open>head_\<close>, read
  \<^verbatim>\<open>*it\<close> and step with \<^verbatim>\<open>++it\<close> to \<^verbatim>\<open>node_->next\<close> until the iterator equals \<^verbatim>\<open>end()\<close>, the
  iterator at \<^verbatim>\<open>nullptr\<close>. The result is the list of the values read; \<open>None\<close> is a
  loop that never reaches \<^verbatim>\<open>end()\<close>.
\<close>

definition begin_q :: "'a PmrQueue \<Rightarrow> ptr" where
  "begin_q q = head_m q"

definition end_q :: "'a PmrQueue \<Rightarrow> ptr" where
  "end_q q = nullptr"

partial_function (option) iterate_from ::
  "(ptr \<rightharpoonup> 'a Node) \<Rightarrow> ptr \<Rightarrow> ptr \<Rightarrow> (exn + 'a list) option" where
  "iterate_from h it stop =
     (if it = stop then Some (Inr [])
      else
        (case h it of
           None \<Rightarrow> Some (Inl dangling_pointer)
         | Some n \<Rightarrow>
             Option.bind (iterate_from h (if it \<noteq> nullptr then next_n n else it) stop)
               (\<lambda>r. Some (case r of Inl e \<Rightarrow> Inl e | Inr vs \<Rightarrow> Inr (value_n n # vs)))))"

definition iterate :: "'a PmrQueue \<Rightarrow> (exn + 'a list) option" where
  "iterate q = iterate_from (nodes_m q) (begin_q q) (end_q q)"

text \<open>
  A sequence of calls on one queue. Each \<open>Push\<close> carries the address that
  \<^verbatim>\<open>allocator_.allocate(1)\<close> returns for it; deallocation in \<open>Pop\<close> succeeds.
\<close>

datatype 'a qcall = Push ptr 'a | Pop

fun apply_qcall :: "'a PmrQueue \<Rightarrow> 'a qcall \<Rightarrow> 'a PmrQueue" where
  "apply_qcall q (Push p v) = snd (push q (Inr p) v)"
| "apply_qcall q Pop = snd (pop q (Inr ()))"

definition run_q :: "'a qcall list \<Rightarrow> 'a PmrQueue" where
  "run_q calls = foldl apply_qcall PmrQueue_new calls"

section \<open>Notions of the specification\<close>

text \<open>
  The byte range \<open>[offset, offset + size)\<close> of a record, in unbounded arithmetic, and the
  invariants the specification states for the occupied-block index.
\<close>

definition byte_range :: "Block \<Rightarrow> nat set" where
  "byte_range b = {unat (offset b) ..< unat (offset b) + unat (size_b b)}"

definition index_sorted :: "Block list \<Rightarrow> bool" where
  "index_sorted bs = sorted (map offset bs)"

fun no_overlap :: "Block list \<Rightarrow> bool" where
  "no_overlap [] = True"
| "no_overlap (b # bs) = ((\<forall>c \<in> set bs. byte_range b \<inter> byte_range c = {}) \<and> no_overlap bs)"

definition within_capacity :: "CustomBlockMemoryResource \<Rightarrow> bool" where
  "within_capacity s =
     (\<forall>b \<in> set (blocks_m s). unat (offset b) + unat (size_b b) \<le> unat (capacity_m s))"

text \<open>
  The layout of a sound index: every record is non-empty and starts at or after the end
  of the one before it (the first at or after \<open>lo\<close>), and the last one ends at or before
  \<open>cap\<close>, all in unbounded arithmetic.
\<close>

fun laid_out :: "nat \<Rightarrow> Block list \<Rightarrow> nat \<Rightarrow> bool" where
  "laid_out lo [] cap = (lo \<le> cap)"
| "laid_out lo (b # bs) cap =
     (lo \<le> unat (offset b) \<and> 0 < unat (size_b b) \<and>
      laid_out (unat (offset b) + unat (size_b b)) bs cap)"

definition index_ok :: "CustomBlockMemoryResource \<Rightarrow> bool" where
  "index_ok s = laid_out 0 (blocks_m s) (unat (capacity_m s))"

text \<open>
  A request whose arithmetic stays within \<^verbatim>\<open>size_t\<close>: the capacity, the effective
  alignment and the normalized size together are below \<open>2 ^ 64\<close>.
\<close>

fun fits_size_t :: "CustomBlockMemoryResource \<Rightarrow> call \<Rightarrow> bool" where
  "fits_size_t s (Allocate bytes alignment) =
     (unat (capacity_m s) + unat (if alignment = 0 then alignof_max_align_t else alignment)
        + unat (if bytes = 0 then 1 else bytes) < 2 ^ 64)"
| "fits_size_t s (Deallocate p size_hint alignment_hint) = True"

definition is_pow2 :: "size_t \<Rightarrow> bool" where
  "is_pow2 a = (\<exists>k < 64. a = 2 ^ k)"

text \<open>
  The placement algorithm in the words of the specification (section 4.2, steps 1 to 4,
  and the rounding rule), on unbounded natural numbers: a record is a pair of its
  offset and its size.
\<close>

definition spec_align_up :: "nat \<Rightarrow> nat \<Rightarrow> nat" where
  "spec_align_up x a = (if a = 0 \<or> x mod a = 0 then x else x + (a - x mod a))"

fun spec_first_fit :: "(nat \<times> nat) list \<Rightarrow> nat \<Rightarrow> nat \<Rightarrow> nat \<Rightarrow> nat \<Rightarrow> nat option" where
  "spec_first_fit [] cursor requested_bytes requested_alignment cap =
     (let candidate = spec_align_up cursor requested_alignment
      in if candidate + requested_bytes \<le> cap then Some candidate else None)"
| "spec_first_fit ((record_offset, record_size) # records) cursor requested_bytes
       requested_alignment cap =
     (let candidate = spec_align_up cursor requested_alignment
      in if candidate + requested_bytes \<le> record_offset then Some candidate
         else spec_first_fit records (record_offset + record_size) requested_bytes
                requested_alignment cap)"

definition records_of :: "Block list \<Rightarrow> (nat \<times> nat) list" where
  "records_of bs = map (\<lambda>b. (unat (offset b), unat (size_b b))) bs"

text \<open>The first-in-first-out queue of the specification: a list, oldest element first.\<close>

fun fifo :: "'a list \<Rightarrow> 'a qcall \<Rightarrow> 'a list" where
  "fifo xs (Push p v) = xs @ [v]"
| "fifo xs Pop = tl xs"

text \<open>
  What a memory resource promises the queue: the address it returns for a new node is
  not null and is not the address of a node that is still alive. \<open>live\<close> lists the
  addresses of the live nodes, oldest first.
\<close>

fun fresh_addresses :: "ptr list \<Rightarrow> 'a qcall list \<Rightarrow> bool" where
  "fresh_addresses live [] = True"
| "fresh_addresses live (Push p v # calls) =
     (p \<noteq> nullptr \<and> p \<notin> set live \<and> fresh_addresses (live @ [p]) calls)"
| "fresh_addresses live (Pop # calls) = fresh_addresses (tl live) calls"

text \<open>
  The list a queue stands for. \<open>chain h p pvs\<close>: from the address \<open>p\<close> the \<^verbatim>\<open>next\<close>
  pointers lead through live nodes with the addresses and values \<open>pvs\<close>, in this
  order, and then to \<^verbatim>\<open>nullptr\<close>. \<open>represents q pvs\<close>: the queue \<open>q\<close> holds exactly
  these nodes, \<^verbatim>\<open>head_\<close> at the first and \<^verbatim>\<open>tail_\<close> at the last.
\<close>

fun chain :: "(ptr \<rightharpoonup> 'a Node) \<Rightarrow> ptr \<Rightarrow> (ptr \<times> 'a) list \<Rightarrow> bool" where
  "chain h p [] = (p = nullptr)"
| "chain h p ((a, v) # rest) =
     (p = a \<and> a \<noteq> nullptr \<and>
      (case h a of None \<Rightarrow> False | Some n \<Rightarrow> value_n n = v \<and> chain h (next_n n) rest))"

definition represents :: "'a PmrQueue \<Rightarrow> (ptr \<times> 'a) list \<Rightarrow> bool" where
  "represents q pvs =
     (chain (nodes_m q) (head_m q) pvs \<and> distinct (map fst pvs) \<and>
      tail_m q = (if pvs = [] then nullptr else fst (last pvs)) \<and>
      size_m q = of_nat (length pvs))"

section \<open>Example states\<close>

text \<open>
  A resource of 32 bytes with the default alignment ceiling 64 whose storage the
  runtime placed at address 4096, and one of 128 bytes with the ceiling 8.
\<close>

definition arena32 :: CustomBlockMemoryResource where
  "arena32 = \<lparr>capacity_m = 32, buffer_alignment_m = 64, buffer_m = 4096, blocks_m = []\<rparr>"


text \<open>
  A resource whose capacity is the largest \<^verbatim>\<open>size_t\<close>, with the default alignment
  ceiling: what the constructor returns for it when \<^verbatim>\<open>operator new\<close> returns the
  address 4096.
\<close>

definition arena_max :: CustomBlockMemoryResource where
  "arena_max = \<lparr>capacity_m = 18446744073709551615, buffer_alignment_m = 64,
                 buffer_m = 4096, blocks_m = []\<rparr>"

text \<open>
  The resource that \<^verbatim>\<open>CustomBlockMemoryResource resource(c)\<close> constructs, with the default
  alignment ceiling, when the runtime places its storage at address 4096.
\<close>

definition arena_of :: "size_t \<Rightarrow> CustomBlockMemoryResource" where
  "arena_of c = \<lparr>capacity_m = c, buffer_alignment_m = 64, buffer_m = 4096, blocks_m = []\<rparr>"

section \<open>Arithmetic of the rounding rule\<close>

lemmas alloc_eval = do_allocate_def commit_block_def vector_insert_def align_offset_def
  alignof_max_align_t_def Let_def

lemma unat_lt_2p64: "unat (x :: size_t) < 2 ^ 64"
  using unsigned_less [of x, where ?'a = nat] by simp

lemma unat_2p64: "k < 64 \<Longrightarrow> unat ((2 :: size_t) ^ k) = 2 ^ k"
proof -
  assume k: "k < 64"
  have "(2 :: size_t) ^ k = word_of_nat (2 ^ k)" by simp
  then have "unat ((2 :: size_t) ^ k) = 2 ^ k mod 2 ^ 64"
    by (simp only: unat_of_nat) simp
  moreover have "(2::nat) ^ k < 2 ^ 64"
    by (rule power_strict_increasing) (use k in simp_all)
  ultimately show ?thesis by simp
qed

lemma spec_align_up_ge: "x \<le> spec_align_up x a"
proof (cases "a = 0 \<or> x mod a = 0")
  case True
  then show ?thesis by (simp add: spec_align_up_def)
next
  case False
  then have "spec_align_up x a = x + (a - x mod a)"
    by (simp only: spec_align_up_def if_False)
  then show ?thesis by (metis le_add1)
qed

lemma spec_align_up_mod: "0 < a \<Longrightarrow> spec_align_up x a mod a = 0"
proof (cases "x mod a = 0")
  case True
  then show ?thesis by (simp add: spec_align_up_def)
next
  case False
  assume a: "0 < a"
  have "x mod a < a" using a by simp
  then have "x + (a - x mod a) = (x - x mod a) + a"
    by (simp add: mod_le_divisor)
  moreover have "(x - x mod a) mod a = 0"
    by (simp add: minus_mod_eq_mult_div)
  ultimately have "(x + (a - x mod a)) mod a = 0"
    by (metis mod_add_self2)
  moreover have "spec_align_up x a = x + (a - x mod a)"
    using a False by (simp only: spec_align_up_def) simp
  ultimately show ?thesis by (simp only:)
qed

lemma spec_align_up_less: "0 < a \<Longrightarrow> spec_align_up x a < x + a"
  by (simp add: spec_align_up_def)

lemma unat_align_offset_wrap:
  "unat (align_offset x a) = spec_align_up (unat x) (unat a) mod 2 ^ 64"
proof (cases "a = 0 \<or> x mod a = 0")
  case True
  then have "align_offset x a = x" by (auto simp: align_offset_def Let_def)
  moreover from True have "spec_align_up (unat x) (unat a) = unat x"
    by (auto simp: spec_align_up_def unat_eq_zero unat_mod[symmetric])
  moreover have "unat x < 2 ^ 64" by (rule unat_lt_2p64)
  ultimately show ?thesis by simp
next
  case False
  then have a: "a \<noteq> 0" and r: "x mod a \<noteq> 0" by auto
  have ra: "x mod a \<le> a"
    by (metis a word_mod_less_divisor word_neq_0_conv order_less_imp_le)
  have "align_offset x a = x + (a - x mod a)"
    using a r by (simp add: align_offset_def Let_def)
  then have "unat (align_offset x a) = (unat x + unat (a - x mod a)) mod 2 ^ 64"
    by (simp add: unat_word_ariths)
  moreover have "unat (a - x mod a) = unat a - unat x mod unat a"
    using ra by (simp add: unat_sub unat_mod)
  moreover have "spec_align_up (unat x) (unat a) = unat x + (unat a - unat x mod unat a)"
    using a r by (auto simp: spec_align_up_def unat_eq_zero unat_mod[symmetric])
  ultimately show ?thesis by simp
qed

lemma unat_align_offset:
  "unat x + unat a \<le> 2 ^ 64 \<Longrightarrow> unat (align_offset x a) = spec_align_up (unat x) (unat a)"
proof (cases "a = 0")
  case True
  then show ?thesis by (simp add: align_offset_def spec_align_up_def)
next
  case False
  assume b: "unat x + unat a \<le> 2 ^ 64"
  from False have "0 < unat a" by (simp add: unat_gt_0)
  then have "spec_align_up (unat x) (unat a) < unat x + unat a"
    by (rule spec_align_up_less)
  with b have "spec_align_up (unat x) (unat a) < 2 ^ 64" by simp
  then show ?thesis by (simp add: unat_align_offset_wrap)
qed






lemma do_allocate_success:
  assumes "do_allocate s n a = (Inr p, s')"
  shows "\<exists>off. do_allocate_scan (blocks_m s) 0 (if n = 0 then 1 else n)
            (if a = 0 then alignof_max_align_t else a) (capacity_m s) = Some off \<and>
          p = buffer_m s + off \<and>
          s' = s\<lparr>blocks_m := vector_insert (blocks_m s) (lower_bound (blocks_m s) off)
                  \<lparr>offset = off, size_b = (if n = 0 then 1 else n)\<rparr>\<rparr>"
  using assms
  by (auto simp: do_allocate_def commit_block_def Let_def split: if_splits option.splits)

section \<open>The power-of-two test of the constructor\<close>

lemma nat_and_pred_pow2:
  fixes x :: nat
  shows "0 < x \<Longrightarrow> x AND (x - 1) = 0 \<Longrightarrow> \<exists>k. x = 2 ^ k"
proof (induction x rule: less_induct)
  case (less x)
  show ?case
  proof (cases "even x")
    case True
    then obtain y where y: "x = 2 * y" by (auto elim: evenE)
    with less.prems have ypos: "0 < y" by simp
    have "(x - 1) div 2 = y - 1" using y ypos by auto
    then have "x AND (x - 1) = 2 * (y AND (y - 1))"
      using y True by (subst and_nat_rec) simp
    with less.prems have "y AND (y - 1) = 0" by simp
    moreover have "y < x" using y ypos by simp
    ultimately obtain k where "y = 2 ^ k" using less.IH ypos by blast
    with y have "x = 2 ^ Suc k" by simp
    then show ?thesis by blast
  next
    case False
    then obtain y where y: "x = 2 * y + 1" by (auto elim: oddE)
    then have "x AND (x - 1) = 2 * (y AND y)"
      by (subst and_nat_rec) simp
    with less.prems have "y = 0" by simp
    with y have "x = 2 ^ 0" by simp
    then show ?thesis by blast
  qed
qed

lemma nat_pow2_and_pred:
  fixes k :: nat
  shows "(2::nat) ^ k AND (2 ^ k - 1) = 0"
proof -
  have "(2::nat) ^ k AND mask k = take_bit k (2 ^ k)"
    by (simp add: take_bit_eq_mask)
  also have "\<dots> = 0" by simp
  finally show ?thesis unfolding mask_eq_exp_minus_1 .
qed

lemma word_pow2_test:
  fixes a :: size_t
  shows "a AND (a - 1) = 0 \<longleftrightarrow> a = 0 \<or> (\<exists>k<64. a = 2 ^ k)"
proof (cases "a = 0")
  case True
  then show ?thesis by simp
next
  case False
  then have pos: "0 < unat a" by (simp add: unat_gt_0)
  have u: "unat (a AND (a - 1)) = unat a AND (unat a - 1)"
    using False by (simp add: unsigned_and_eq unat_minus_one)
  show ?thesis
  proof
    assume "a AND (a - 1) = 0"
    with u have "unat a AND (unat a - 1) = 0" by simp
    from nat_and_pred_pow2 [OF pos this] obtain k where k: "unat a = 2 ^ k" by blast
    have lt: "unat a < 2 ^ 64" by (rule unat_lt_2p64)
    have "k < 64"
    proof (rule power_less_imp_less_exp)
      show "(1::nat) < 2" by simp
      show "(2::nat) ^ k < 2 ^ 64" unfolding k [symmetric] by (rule lt)
    qed
    moreover have "a = 2 ^ k"
    proof -
      have "a = of_nat (unat a)" by simp
      also have "\<dots> = 2 ^ k" unfolding k by simp
      finally show ?thesis .
    qed
    ultimately show "a = 0 \<or> (\<exists>k<64. a = 2 ^ k)" by blast
  next
    assume "a = 0 \<or> (\<exists>k<64. a = 2 ^ k)"
    with False obtain k where k: "k < 64" "a = 2 ^ k" by blast
    have "unat a = 2 ^ k" using k by (simp add: unat_2p64)
    with u nat_pow2_and_pred [of k] have "unat (a AND (a - 1)) = 0" by simp
    then show "a AND (a - 1) = 0" by (simp add: unat_eq_zero)
  qed
qed

lemma is_pow2_test: "a AND (a - 1) = 0 \<longleftrightarrow> a = 0 \<or> is_pow2 a"
  unfolding is_pow2_def by (rule word_pow2_test)

lemma construct_invalid_iff:
  assumes "\<forall>m. new_result \<noteq> Inl (invalid_argument m)"
  shows "(\<exists>m. construct c a new_result = Inl (invalid_argument m)) \<longleftrightarrow>
         (c = 0 \<or> (a \<noteq> 0 \<and> \<not> is_pow2 a))"
  using assms by (auto simp: construct_def is_pow2_test split: sum.splits)

lemma construct_fields:
  "construct c a new_result = Inr s \<Longrightarrow>
     capacity_m s = c \<and> buffer_alignment_m s = a \<and> blocks_m s = [] \<and> new_result = Inr (buffer_m s)"
  by (auto simp: construct_def split: if_splits sum.splits)

section \<open>The block index\<close>

lemma erase_offset_None: "erase_offset bs off = None \<longleftrightarrow> (\<forall>b \<in> set bs. offset b \<noteq> off)"
  by (induction bs) auto

lemma erase_offset_Some:
  "erase_offset bs off = Some bs' \<Longrightarrow>
     \<exists>pre b post. bs = pre @ b # post \<and> offset b = off \<and>
       (\<forall>x \<in> set pre. offset x \<noteq> off) \<and> bs' = pre @ post"
proof (induction bs arbitrary: bs')
  case Nil
  then show ?case by simp
next
  case (Cons c cs)
  show ?case
  proof (cases "offset c = off")
    case True
    with Cons.prems have "bs' = cs" by simp
    with True show ?thesis by (intro exI [of _ "[]"] exI [of _ c] exI [of _ cs]) simp
  next
    case False
    with Cons.prems obtain cs' where e: "erase_offset cs off = Some cs'" and b: "bs' = c # cs'"
      by auto
    from Cons.IH [OF e] obtain pre b post where
      "cs = pre @ b # post" "offset b = off" "\<forall>x \<in> set pre. offset x \<noteq> off" "cs' = pre @ post"
      by blast
    with False b show ?thesis
      by (intro exI [of _ "c # pre"] exI [of _ b] exI [of _ post]) simp
  qed
qed

lemma in_arena_iff:
  assumes "unat (buffer_m s) + unat (capacity_m s) < 2 ^ 64"
  shows "(p < buffer_m s \<or> p \<ge> buffer_m s + capacity_m s) \<longleftrightarrow>
         (unat p < unat (buffer_m s) \<or> unat (buffer_m s) + unat (capacity_m s) \<le> unat p)"
proof -
  have "unat (buffer_m s + capacity_m s) = unat (buffer_m s) + unat (capacity_m s)"
    using assms by (simp add: unat_add_lem [THEN iffD1])
  then show ?thesis by (simp add: word_less_nat_alt word_le_nat_alt)
qed

lemma laid_out_le: "laid_out lo bs cap \<Longrightarrow> lo \<le> cap"
proof (induction bs arbitrary: lo)
  case Nil
  then show ?case by simp
next
  case (Cons b bs)
  from Cons.prems have "laid_out (unat (offset b) + unat (size_b b)) bs cap"
    and "lo \<le> unat (offset b)"
    by simp_all
  with Cons.IH [of "unat (offset b) + unat (size_b b)"] show ?case by simp
qed

lemma laid_out_mono: "laid_out lo bs cap \<Longrightarrow> lo' \<le> lo \<Longrightarrow> laid_out lo' bs cap"
  by (cases bs) auto

lemma laid_out_bounds:
  "laid_out lo bs cap \<Longrightarrow> b \<in> set bs \<Longrightarrow>
     lo \<le> unat (offset b) \<and> unat (offset b) + unat (size_b b) \<le> cap"
proof (induction bs arbitrary: lo)
  case Nil
  then show ?case by simp
next
  case (Cons c cs)
  show ?case
  proof (cases "b = c")
    case True
    with Cons.prems laid_out_le [of "unat (offset c) + unat (size_b c)" cs cap]
    show ?thesis by simp
  next
    case False
    with Cons.prems have "b \<in> set cs" "laid_out (unat (offset c) + unat (size_b c)) cs cap"
      "lo \<le> unat (offset c)"
      by auto
    with Cons.IH [of "unat (offset c) + unat (size_b c)"] show ?thesis by simp
  qed
qed

lemma laid_out_sorted: "laid_out lo bs cap \<Longrightarrow> index_sorted bs"
proof (induction bs arbitrary: lo)
  case Nil
  then show ?case by (simp add: index_sorted_def)
next
  case (Cons c cs)
  then have t: "laid_out (unat (offset c) + unat (size_b c)) cs cap" by simp
  have "\<forall>b \<in> set cs. offset c \<le> offset b"
  proof
    fix b assume "b \<in> set cs"
    from laid_out_bounds [OF t this] show "offset c \<le> offset b"
      by (simp add: word_le_nat_alt)
  qed
  with Cons.IH [OF t] show ?case by (simp add: index_sorted_def)
qed

lemma laid_out_no_overlap: "laid_out lo bs cap \<Longrightarrow> no_overlap bs"
proof (induction bs arbitrary: lo)
  case Nil
  then show ?case by simp
next
  case (Cons c cs)
  then have t: "laid_out (unat (offset c) + unat (size_b c)) cs cap" by simp
  have "\<forall>b \<in> set cs. byte_range c \<inter> byte_range b = {}"
  proof
    fix b assume "b \<in> set cs"
    from laid_out_bounds [OF t this] show "byte_range c \<inter> byte_range b = {}"
      by (auto simp: byte_range_def)
  qed
  with Cons.IH [OF t] show ?case by simp
qed

lemma index_ok_within_capacity: "index_ok s \<Longrightarrow> within_capacity s"
  unfolding index_ok_def within_capacity_def using laid_out_bounds by blast

lemma step_arith:
  assumes "unat cur \<le> unat cap" and "unat cap + unat a + unat n < 2 ^ 64"
  shows "unat (align_offset cur a) = spec_align_up (unat cur) (unat a)"
    and "unat (align_offset cur a + n) = spec_align_up (unat cur) (unat a) + unat n"
    and "unat cur \<le> unat (align_offset cur a)"
proof -
  from assms have "unat cur + unat a \<le> 2 ^ 64" by simp
  then show 1: "unat (align_offset cur a) = spec_align_up (unat cur) (unat a)"
    by (rule unat_align_offset)
  have "spec_align_up (unat cur) (unat a) \<le> unat cur + unat a"
  proof (cases "unat a = 0")
    case True
    then show ?thesis by (simp add: spec_align_up_def)
  next
    case False
    then show ?thesis using spec_align_up_less [of "unat a" "unat cur"] by simp
  qed
  with assms have "spec_align_up (unat cur) (unat a) + unat n < 2 ^ 64" by simp
  with 1 show "unat (align_offset cur a + n) = spec_align_up (unat cur) (unat a) + unat n"
    by (simp add: unat_add_lem [THEN iffD1])
  from 1 show "unat cur \<le> unat (align_offset cur a)"
    by (simp add: spec_align_up_ge)
qed

lemma block_end_unat:
  assumes "unat (offset b) + unat (size_b b) \<le> unat (cap :: size_t)"
  shows "unat (offset b + size_b b) = unat (offset b) + unat (size_b b)"
proof -
  have "unat cap < 2 ^ 64" by (rule unat_lt_2p64)
  with assms have "unat (offset b) + unat (size_b b) < 2 ^ 64" by simp
  then show ?thesis by (simp add: unat_add_lem [THEN iffD1])
qed

lemma scan_refines_spec:
  assumes "laid_out (unat cur) bs (unat cap)" and "unat cap + unat a + unat n < 2 ^ 64"
  shows "map_option unat (do_allocate_scan bs cur n a cap) =
           spec_first_fit (records_of bs) (unat cur) (unat n) (unat a) (unat cap)"
  using assms(1)
proof (induction bs arbitrary: cur)
  case Nil
  then have c: "unat cur \<le> unat cap" by simp
  from step_arith [OF c assms(2)] show ?case
    by (simp add: records_of_def Let_def word_less_nat_alt word_le_nat_alt not_less)
next
  case (Cons b bs)
  from Cons.prems have c: "unat cur \<le> unat cap"
    by (rule laid_out_le)
  from Cons.prems have t: "laid_out (unat (offset b) + unat (size_b b)) bs (unat cap)"
    by simp
  from laid_out_le [OF t] have e: "unat (offset b + size_b b) = unat (offset b) + unat (size_b b)"
    by (rule block_end_unat)
  from Cons.IH [of "offset b + size_b b"] t e
  have ih: "map_option unat (do_allocate_scan bs (offset b + size_b b) n a cap) =
      spec_first_fit (records_of bs) (unat (offset b) + unat (size_b b)) (unat n) (unat a) (unat cap)"
    by simp
  from step_arith [OF c assms(2)] ih show ?case
    by (simp add: records_of_def Let_def word_le_nat_alt)
qed


lemma scan_ge:
  assumes "laid_out (unat cur) bs (unat cap)" and "unat cap + unat a + unat n < 2 ^ 64"
    and "do_allocate_scan bs cur n a cap = Some off"
  shows "unat cur \<le> unat off"
  using assms(1,3)
proof (induction bs arbitrary: cur)
  case Nil
  then have c: "unat cur \<le> unat cap" by simp
  from Nil.prems(2) have "off = align_offset cur a"
    by (simp add: Let_def split: if_splits)
  with step_arith(3) [OF c assms(2)] show ?case by simp
next
  case (Cons b bs)
  from Cons.prems(1) have c: "unat cur \<le> unat cap"
    by (rule laid_out_le)
  show ?case
  proof (cases "align_offset cur a + n \<le> offset b")
    case True
    with Cons.prems(2) have "off = align_offset cur a" by (simp add: Let_def)
    with step_arith(3) [OF c assms(2)] show ?thesis by simp
  next
    case False
    with Cons.prems(2) have r: "do_allocate_scan bs (offset b + size_b b) n a cap = Some off"
      by (simp add: Let_def)
    from Cons.prems(1) have t: "laid_out (unat (offset b) + unat (size_b b)) bs (unat cap)"
      and lo: "unat cur \<le> unat (offset b)"
      by simp_all
    from laid_out_le [OF t] have e: "unat (offset b + size_b b) = unat (offset b) + unat (size_b b)"
      by (rule block_end_unat)
    from Cons.IH [of "offset b + size_b b"] t e r have "unat (offset b) + unat (size_b b) \<le> unat off"
      by simp
    with lo show ?thesis by simp
  qed
qed

lemma vector_insert_Cons:
  "vector_insert (b # bs) 0 x = x # b # bs"
  "vector_insert (b # bs) (Suc k) x = b # vector_insert bs k x"
  "vector_insert [] k x = [x]"
  by (simp_all add: vector_insert_def)

lemma scan_insert_laid_out:
  assumes "laid_out (unat cur) bs (unat cap)" and "unat cap + unat a + unat n < 2 ^ 64"
    and "0 < unat n" and "do_allocate_scan bs cur n a cap = Some off"
  shows "laid_out (unat cur) (vector_insert bs (lower_bound bs off) \<lparr>offset = off, size_b = n\<rparr>)
           (unat cap)"
  using assms(1,4)
proof (induction bs arbitrary: cur)
  case Nil
  then have c: "unat cur \<le> unat cap" by simp
  from Nil.prems(2) have o: "off = align_offset cur a" and f: "\<not> align_offset cur a + n > cap"
    by (simp_all add: Let_def split: if_splits)
  from f step_arith(2) [OF c assms(2)] step_arith(1) [OF c assms(2)]
  have "unat off + unat n \<le> unat cap"
    using o by (simp add: word_less_nat_alt)
  with step_arith(3) [OF c assms(2)] o assms(3) show ?case
    by (simp add: vector_insert_Cons)
next
  case (Cons b bs)
  from Cons.prems(1) have c: "unat cur \<le> unat cap"
    by (rule laid_out_le)
  show ?case
  proof (cases "align_offset cur a + n \<le> offset b")
    case True
    with Cons.prems(2) have o: "off = align_offset cur a" by (simp add: Let_def)
    from True step_arith(2) [OF c assms(2)] step_arith(1) [OF c assms(2)] o
    have f: "unat off + unat n \<le> unat (offset b)"
      by (simp add: word_le_nat_alt)
    with assms(3) have "\<not> offset b < off" by (simp add: word_less_nat_alt)
    then have "lower_bound (b # bs) off = 0" by simp
    with f step_arith(3) [OF c assms(2)] o assms(3) Cons.prems(1) show ?thesis
      by (simp add: vector_insert_Cons)
  next
    case False
    with Cons.prems(2) have r: "do_allocate_scan bs (offset b + size_b b) n a cap = Some off"
      by (simp add: Let_def)
    from Cons.prems(1) have t: "laid_out (unat (offset b) + unat (size_b b)) bs (unat cap)"
      and lo: "unat cur \<le> unat (offset b)" and sz: "0 < unat (size_b b)"
      by simp_all
    from laid_out_le [OF t] have e: "unat (offset b + size_b b) = unat (offset b) + unat (size_b b)"
      by (rule block_end_unat)
    from t e have t': "laid_out (unat (offset b + size_b b)) bs (unat cap)" by simp
    from scan_ge [OF t' assms(2) r] e sz have "offset b < off"
      by (simp add: word_less_nat_alt)
    then have "lower_bound (b # bs) off = Suc (lower_bound bs off)" by simp
    with Cons.IH [OF t' r] e lo sz show ?thesis
      by (simp add: vector_insert_Cons)
  qed
qed

lemma erase_laid_out:
  "laid_out lo bs cap \<Longrightarrow> erase_offset bs off = Some bs' \<Longrightarrow> laid_out lo bs' cap"
proof (induction bs arbitrary: lo bs')
  case Nil
  then show ?case by simp
next
  case (Cons b bs)
  from Cons.prems(1) have t: "laid_out (unat (offset b) + unat (size_b b)) bs cap"
    and lo: "lo \<le> unat (offset b)" and sz: "0 < unat (size_b b)"
    by simp_all
  show ?case
  proof (cases "offset b = off")
    case True
    with Cons.prems(2) have "bs' = bs" by simp
    with laid_out_mono [OF t, of lo] lo show ?thesis by simp
  next
    case False
    with Cons.prems(2) obtain cs where
      "erase_offset bs off = Some cs" and "bs' = b # cs"
      by auto
    with Cons.IH [OF t] lo sz show ?thesis by simp
  qed
qed

lemma do_allocate_fixed:
  "capacity_m (snd (do_allocate s n a)) = capacity_m s \<and>
   buffer_alignment_m (snd (do_allocate s n a)) = buffer_alignment_m s \<and>
   buffer_m (snd (do_allocate s n a)) = buffer_m s"
  by (simp add: do_allocate_def commit_block_def Let_def split: option.splits)

lemma do_deallocate_fixed:
  "capacity_m (snd (do_deallocate s p h1 h2)) = capacity_m s \<and>
   buffer_alignment_m (snd (do_deallocate s p h1 h2)) = buffer_alignment_m s \<and>
   buffer_m (snd (do_deallocate s p h1 h2)) = buffer_m s"
  by (simp add: do_deallocate_def Let_def split: option.splits)

lemma apply_call_fixed:
  "capacity_m (apply_call s c) = capacity_m s \<and>
   buffer_alignment_m (apply_call s c) = buffer_alignment_m s \<and>
   buffer_m (apply_call s c) = buffer_m s"
  by (cases c) (simp_all add: do_allocate_fixed do_deallocate_fixed)

lemma run_fixed:
  "capacity_m (run s calls) = capacity_m s \<and>
   buffer_alignment_m (run s calls) = buffer_alignment_m s \<and>
   buffer_m (run s calls) = buffer_m s"
  unfolding run_def by (induction calls arbitrary: s) (simp_all add: apply_call_fixed)

lemma do_allocate_index_ok:
  assumes "index_ok s" and "fits_size_t s (Allocate n a)"
  shows "index_ok (snd (do_allocate s n a))"
proof -
  let ?n = "if n = 0 then 1 else n"
  let ?a = "if a = 0 then alignof_max_align_t else a"
  have pos: "0 < unat ?n" by (simp add: unat_gt_0)
  from assms(2) have fit: "unat (capacity_m s) + unat ?a + unat ?n < 2 ^ 64" by simp
  from assms(1) have l: "laid_out (unat (0 :: size_t)) (blocks_m s) (unat (capacity_m s))"
    by (simp add: index_ok_def)
  show ?thesis
  proof (cases "do_allocate_scan (blocks_m s) 0 ?n ?a (capacity_m s)")
    case None
    with assms(1) show ?thesis by (simp add: do_allocate_def Let_def)
  next
    case (Some off)
    from scan_insert_laid_out [OF l fit pos Some] Some assms(1) show ?thesis
      by (simp add: do_allocate_def commit_block_def Let_def index_ok_def)
  qed
qed

lemma do_deallocate_index_ok:
  assumes "index_ok s"
  shows "index_ok (snd (do_deallocate s p h1 h2))"
  using assms erase_laid_out [of 0 "blocks_m s" "unat (capacity_m s)" "p - buffer_m s"]
  by (auto simp: do_deallocate_def Let_def index_ok_def split: option.splits)

lemma run_index_ok:
  "index_ok s \<Longrightarrow> \<forall>c \<in> set calls. fits_size_t s c \<Longrightarrow> index_ok (run s calls)"
  unfolding run_def
proof (induction calls arbitrary: s)
  case Nil
  then show ?case by simp
next
  case (Cons c calls)
  have ok: "index_ok (apply_call s c)"
  proof (cases c)
    case (Allocate n a)
    with Cons.prems show ?thesis by (simp add: do_allocate_index_ok)
  next
    case (Deallocate p h1 h2)
    with Cons.prems show ?thesis by (simp add: do_deallocate_index_ok)
  qed
  have "fits_size_t (apply_call s c) d = fits_size_t s d" for d
    by (cases d) (simp_all add: apply_call_fixed)
  with Cons.prems(2) have "\<forall>d \<in> set calls. fits_size_t (apply_call s c) d" by simp
  from Cons.IH [OF ok this] show ?case by simp
qed

lemma construct_index_ok: "construct c a r = Inr s \<Longrightarrow> index_ok s"
  by (auto simp: construct_def index_ok_def split: if_splits sum.splits)

lemma invariants_without_wrap:
  assumes "index_ok s" and "\<forall>c \<in> set calls. fits_size_t s c"
  shows "index_sorted (blocks_m (run s calls)) \<and> no_overlap (blocks_m (run s calls)) \<and>
         within_capacity (run s calls)"
proof -
  from run_index_ok [OF assms] have ok: "index_ok (run s calls)" .
  then have "laid_out 0 (blocks_m (run s calls)) (unat (capacity_m (run s calls)))"
    by (simp add: index_ok_def)
  with ok show ?thesis
    by (simp add: laid_out_sorted laid_out_no_overlap index_ok_within_capacity)
qed

lemma set_vector_insert: "k \<le> length bs \<Longrightarrow> set (vector_insert bs k x) = insert x (set bs)"
proof -
  assume "k \<le> length bs"
  have "set (take k bs) \<union> set (drop k bs) = set bs"
    by (metis append_take_drop_id set_append)
  then show ?thesis by (auto simp: vector_insert_def)
qed

lemma lower_bound_le: "lower_bound bs off \<le> length bs"
  by (induction bs) auto

lemma insert_sorted:
  "index_sorted bs \<Longrightarrow>
     index_sorted (vector_insert bs (lower_bound bs off) \<lparr>offset = off, size_b = n\<rparr>)"
proof (induction bs)
  case Nil
  then show ?case by (simp add: index_sorted_def vector_insert_Cons)
next
  case (Cons b bs)
  from Cons.prems have s: "index_sorted bs" and le: "\<forall>c \<in> set bs. offset b \<le> offset c"
    by (simp_all add: index_sorted_def)
  show ?case
  proof (cases "offset b < off")
    case True
    from Cons.IH [OF s] le True
    show ?thesis
      by (auto simp: index_sorted_def vector_insert_Cons set_vector_insert lower_bound_le)
  next
    case False
    with le have "\<forall>c \<in> set (b # bs). off \<le> offset c" by auto
    with Cons.prems False show ?thesis
      by (simp add: index_sorted_def vector_insert_Cons)
  qed
qed

lemma erase_sorted:
  assumes "index_sorted bs" and "erase_offset bs off = Some bs'"
  shows "index_sorted bs'"
proof -
  from erase_offset_Some [OF assms(2)] obtain pre b post where
    "bs = pre @ b # post" "bs' = pre @ post"
    by blast
  with assms(1) show ?thesis
    by (auto simp: index_sorted_def sorted_append)
qed

lemma apply_call_sorted: "index_sorted (blocks_m s) \<Longrightarrow> index_sorted (blocks_m (apply_call s c))"
proof (cases c)
  case (Allocate n a)
  assume "index_sorted (blocks_m s)"
  with Allocate show ?thesis
    by (simp add: do_allocate_def commit_block_def Let_def insert_sorted split: option.splits)
next
  case (Deallocate p h1 h2)
  assume "index_sorted (blocks_m s)"
  with Deallocate erase_sorted [of "blocks_m s" "p - buffer_m s"] show ?thesis
    by (auto simp: do_deallocate_def Let_def split: option.splits)
qed

lemma index_always_sorted:
  "index_sorted (blocks_m s) \<Longrightarrow> index_sorted (blocks_m (run s calls))"
  unfolding run_def by (induction calls arbitrary: s) (simp_all add: apply_call_sorted)

lemma do_allocate_refines_spec:
  assumes "index_ok s" and "fits_size_t s (Allocate n a)"
  shows "fst (do_allocate s n a) =
     (if (if a = 0 then alignof_max_align_t else a) > buffer_alignment_m s
      then Inl bad_alloc
      else
        (case spec_first_fit (records_of (blocks_m s)) 0 (unat (if n = 0 then 1 else n))
                (unat (if a = 0 then alignof_max_align_t else a)) (unat (capacity_m s)) of
           None \<Rightarrow> Inl bad_alloc
         | Some off \<Rightarrow> Inr (buffer_m s + of_nat off)))"
proof -
  let ?n = "if n = 0 then 1 else n"
  let ?a = "if a = 0 then alignof_max_align_t else a"
  from assms(2) have fit: "unat (capacity_m s) + unat ?a + unat ?n < 2 ^ 64" by simp
  from assms(1) have l: "laid_out (unat (0 :: size_t)) (blocks_m s) (unat (capacity_m s))"
    by (simp add: index_ok_def)
  from scan_refines_spec [OF l fit]
  have r: "spec_first_fit (records_of (blocks_m s)) 0 (unat ?n) (unat ?a) (unat (capacity_m s)) =
     map_option unat (do_allocate_scan (blocks_m s) 0 ?n ?a (capacity_m s))"
    by simp
  show ?thesis
    unfolding r
    by (cases "do_allocate_scan (blocks_m s) 0 ?n ?a (capacity_m s)")
      (simp_all add: do_allocate_def commit_block_def Let_def)
qed

lemma laid_out_sizes: "laid_out lo bs cap \<Longrightarrow> b \<in> set bs \<Longrightarrow> 0 < unat (size_b b)"
  by (induction bs arbitrary: lo) auto

lemma no_overlap_vector_insert:
  assumes "no_overlap (vector_insert bs k x)" and "k \<le> length bs" and "b \<in> set bs"
  shows "byte_range x \<inter> byte_range b = {}"
  using assms
proof (induction bs arbitrary: k)
  case Nil
  then show ?case by simp
next
  case (Cons c cs)
  show ?case
  proof (cases k)
    case 0
    with Cons.prems show ?thesis by (auto simp: vector_insert_Cons)
  next
    case (Suc j)
    with Cons.prems have n: "no_overlap (c # vector_insert cs j x)" and j: "j \<le> length cs"
      by (simp_all add: vector_insert_Cons)
    show ?thesis
    proof (cases "b = c")
      case True
      from n j have "byte_range c \<inter> byte_range x = {}"
        by (simp add: set_vector_insert)
      with True show ?thesis by auto
    next
      case False
      with Cons.prems(3) have "b \<in> set cs" by simp
      with Cons.IH [of j] n j show ?thesis by simp
    qed
  qed
qed

lemma do_allocate_fresh:
  assumes "index_ok s" and "fits_size_t s (Allocate n a)"
    and "buffer_m s \<noteq> 0" and "unat (buffer_m s) + unat (capacity_m s) < 2 ^ 64"
    and "do_allocate s n a = (Inr p, s')"
  shows "p \<noteq> 0 \<and> (\<forall>b \<in> set (blocks_m s). p \<noteq> buffer_m s + offset b)"
proof -
  let ?n = "if n = 0 then 1 else n"
  from do_allocate_success [OF assms(5)] obtain off where
    p: "p = buffer_m s + off"
    and s': "s' = s\<lparr>blocks_m := vector_insert (blocks_m s) (lower_bound (blocks_m s) off)
                  \<lparr>offset = off, size_b = ?n\<rparr>\<rparr>"
    by blast
  from do_allocate_index_ok [OF assms(1,2)] assms(5) have ok: "index_ok s'" by simp
  then have l: "laid_out 0 (vector_insert (blocks_m s) (lower_bound (blocks_m s) off)
      \<lparr>offset = off, size_b = ?n\<rparr>) (unat (capacity_m s))"
    using s' by (simp add: index_ok_def)
  have mem: "\<lparr>offset = off, size_b = ?n\<rparr> \<in>
      set (vector_insert (blocks_m s) (lower_bound (blocks_m s) off) \<lparr>offset = off, size_b = ?n\<rparr>)"
    by (simp add: set_vector_insert lower_bound_le)
  from laid_out_bounds [OF l mem] have "unat off + unat ?n \<le> unat (capacity_m s)" by simp
  with assms(4) have "unat (buffer_m s) + unat off < 2 ^ 64" by simp
  then have "unat (buffer_m s + off) = unat (buffer_m s) + unat off"
    by (simp add: unat_add_lem [THEN iffD1])
  moreover have "0 < unat (buffer_m s)" using assms(3) by (simp add: unat_gt_0)
  ultimately have "0 < unat p" using p by simp
  then have nonnull: "p \<noteq> 0" by (simp add: unat_gt_0)
  have pos: "0 < unat ?n" by (simp add: unat_gt_0)
  have "p \<noteq> buffer_m s + offset b" if b: "b \<in> set (blocks_m s)" for b
  proof
    assume "p = buffer_m s + offset b"
    with p have eq: "off = offset b" by simp
    from laid_out_no_overlap [OF l] have
      "byte_range \<lparr>offset = off, size_b = ?n\<rparr> \<inter> byte_range b = {}"
      by (rule no_overlap_vector_insert) (simp_all add: lower_bound_le b)
    moreover from assms(1) b have "0 < unat (size_b b)"
      unfolding index_ok_def by (rule laid_out_sizes)
    ultimately show False
      using eq pos by (auto simp: byte_range_def)
  qed
  with nonnull show ?thesis by blast
qed

lemma scan_aligned_nat:
  assumes "laid_out (unat cur) bs (unat cap)" and "unat cap + unat a + unat n < 2 ^ 64"
    and "a \<noteq> 0" and "do_allocate_scan bs cur n a cap = Some off"
  shows "off mod a = 0"
  using assms(1,4)
proof (induction bs arbitrary: cur)
  case Nil
  then have c: "unat cur \<le> unat cap" by simp
  from Nil.prems(2) have "off = align_offset cur a"
    by (simp add: Let_def split: if_splits)
  with step_arith(1) [OF c assms(2)] have "unat off = spec_align_up (unat cur) (unat a)"
    by simp
  moreover have "0 < unat a" using assms(3) by (simp add: unat_gt_0)
  ultimately have "unat off mod unat a = 0" by (simp add: spec_align_up_mod)
  then show ?case by (simp add: unat_eq_zero [symmetric] unat_mod)
next
  case (Cons b bs)
  from Cons.prems(1) have c: "unat cur \<le> unat cap"
    by (rule laid_out_le)
  show ?case
  proof (cases "align_offset cur a + n \<le> offset b")
    case True
    with Cons.prems(2) have "off = align_offset cur a" by (simp add: Let_def)
    with step_arith(1) [OF c assms(2)] have "unat off = spec_align_up (unat cur) (unat a)"
      by simp
    moreover have "0 < unat a" using assms(3) by (simp add: unat_gt_0)
    ultimately have "unat off mod unat a = 0" by (simp add: spec_align_up_mod)
    then show ?thesis by (simp add: unat_eq_zero [symmetric] unat_mod)
  next
    case False
    with Cons.prems(2) have r: "do_allocate_scan bs (offset b + size_b b) n a cap = Some off"
      by (simp add: Let_def)
    from Cons.prems(1) have t: "laid_out (unat (offset b) + unat (size_b b)) bs (unat cap)"
      by simp
    from laid_out_le [OF t] have e: "unat (offset b + size_b b) = unat (offset b) + unat (size_b b)"
      by (rule block_end_unat)
    from t e have t': "laid_out (unat (offset b + size_b b)) bs (unat cap)" by simp
    from Cons.IH [OF t' r] show ?thesis .
  qed
qed

lemma arena32_index_ok: "index_ok arena32"
  by (simp add: index_ok_def arena32_def)

section \<open>The queue and its list\<close>

lemma chain_nullptr: "chain h 0 pvs \<longleftrightarrow> pvs = []"
  by (cases pvs) auto

lemma chain_nonnull: "chain h p pvs \<Longrightarrow> (a, v) \<in> set pvs \<Longrightarrow> a \<noteq> 0"
  by (induction pvs arbitrary: p) (auto split: option.splits)

lemma chain_update_other:
  "a \<notin> fst ` set pvs \<Longrightarrow> chain (h(a := x)) p pvs = chain h p pvs"
  by (induction pvs arbitrary: p) (auto split: option.splits)

lemma chain_snoc:
  assumes "chain h p pvs" and "distinct (map fst pvs)" and "a \<noteq> 0"
    and "a \<notin> fst ` set pvs" and "pvs \<noteq> []" and "h' = h(a \<mapsto> \<lparr>value_n = v, next_n = 0\<rparr>)"
  shows "\<exists>t. h' (fst (last pvs)) = Some t \<and>
           chain (h'(fst (last pvs) \<mapsto> t\<lparr>next_n := a\<rparr>)) p (pvs @ [(a, v)])"
  using assms
proof (induction pvs arbitrary: p)
  case Nil
  then show ?case by simp
next
  case (Cons bw rest)
  obtain b w where bw: "bw = (b, w)" by (cases bw)
  from Cons.prems(1) bw obtain n where
    n: "p = b" "b \<noteq> 0" "h b = Some n" "value_n n = w" "chain h (next_n n) rest"
    by (auto split: option.splits)
  from Cons.prems(4) bw have ab: "a \<noteq> b" by auto
  show ?case
  proof (cases "rest = []")
    case True
    with n have nx: "next_n n = 0" by simp
    have "h' b = Some n" using Cons.prems(6) ab n by simp
    moreover have "chain (h'(b \<mapsto> n\<lparr>next_n := a\<rparr>)) p [(b, w), (a, v)]"
      using n ab Cons.prems(3,6) by simp
    ultimately show ?thesis
      unfolding True bw by (intro exI [of _ n]) (simp del: chain.simps add: fun_upd_def)
  next
    case False
    from Cons.prems bw have d: "distinct (map fst rest)" and nin: "a \<notin> fst ` set rest"
      and bnin: "b \<notin> fst ` set rest"
      by auto
    from Cons.IH [OF n(5) d Cons.prems(3) nin False Cons.prems(6)] obtain t where
      t: "h' (fst (last rest)) = Some t"
         "chain (h'(fst (last rest) \<mapsto> t\<lparr>next_n := a\<rparr>)) (next_n n) (rest @ [(a, v)])"
      by blast
    have lb: "fst (last rest) \<noteq> b"
      using bnin False by (metis image_eqI last_in_set)
    have "(h'(fst (last rest) \<mapsto> t\<lparr>next_n := a\<rparr>)) b = Some n"
      using lb ab n Cons.prems(6) by simp
    with t n have ch: "chain (h'(fst (last rest) \<mapsto> t\<lparr>next_n := a\<rparr>)) p ((b, w) # rest @ [(a, v)])"
      by simp
    have l: "last (bw # rest) = last rest" using False by simp
    show ?thesis
      unfolding l bw
      by (intro exI [of _ t] conjI) (use t ch False in \<open>simp_all del: chain.simps add: fun_upd_def\<close>)
  qed
qed

lemma represents_new: "represents PmrQueue_new []"
  by (simp add: represents_def PmrQueue_new_def)

lemma represents_empty: "represents q pvs \<Longrightarrow> empty_q q \<longleftrightarrow> pvs = []"
  by (cases pvs) (auto simp: represents_def empty_q_def split: option.splits)

lemma emplace_represents:
  assumes "represents q pvs" and "a \<noteq> 0" and "a \<notin> fst ` set pvs"
  shows "fst (emplace q (Inr a) v) = Inr () \<and>
         represents (snd (emplace q (Inr a) v)) (pvs @ [(a, v)])"
proof (cases "pvs = []")
  case True
  with assms show ?thesis
    by (simp add: represents_def emplace_def Let_def)
next
  case False
  let ?h' = "(nodes_m q)(a \<mapsto> \<lparr>value_n = v, next_n = 0\<rparr>)"
  from assms(1) have c: "chain (nodes_m q) (head_m q) pvs" and d: "distinct (map fst pvs)"
    and tl: "tail_m q = fst (last pvs)" and sz: "size_m q = of_nat (length pvs)"
    using False by (simp_all add: represents_def)
  from chain_snoc [OF c d assms(2,3) False refl, of v] obtain t where
    t: "?h' (fst (last pvs)) = Some t"
       "chain (?h'(fst (last pvs) \<mapsto> t\<lparr>next_n := a\<rparr>)) (head_m q) (pvs @ [(a, v)])"
    by blast
  have tn: "tail_m q \<noteq> 0"
    using tl False chain_nonnull [OF c, of "fst (last pvs)" "snd (last pvs)"] by simp
  show ?thesis
    using t tl tn d assms(3) sz
    by (simp add: represents_def emplace_def Let_def)
qed


lemma pop_represents:
  assumes "represents q ((a, v) # rest)"
  shows "fst (pop q (Inr ())) = Inr () \<and> represents (snd (pop q (Inr ()))) rest"
proof -
  from assms obtain n where
    n: "head_m q = a" "a \<noteq> 0" "nodes_m q a = Some n" "value_n n = v"
       "chain (nodes_m q) (next_n n) rest"
    by (auto simp: represents_def split: option.splits)
  from assms have d: "a \<notin> fst ` set rest" "distinct (map fst rest)"
    and tl: "tail_m q = fst (last ((a, v) # rest))"
    and sz: "size_m q = of_nat (length ((a, v) # rest))"
    by (auto simp: represents_def)
  have c: "chain ((nodes_m q)(a := None)) (next_n n) rest"
    using n(5) d(1) by (simp add: chain_update_other)
  have e: "next_n n = 0 \<longleftrightarrow> rest = []"
    using n(5) by (cases rest) auto
  show ?thesis
    using n c d e tl sz
    by (auto simp: represents_def pop_def empty_q_def Let_def)
qed

lemma pop_empty:
  assumes "represents q []"
  shows "pop q (Inr ()) = (Inl (out_of_range ''Queue is empty''), q)"
  using assms by (simp add: represents_def pop_def empty_q_def)

lemma front_represents:
  "represents q pvs \<Longrightarrow>
     front q = (case pvs of [] \<Rightarrow> Inl (out_of_range ''Queue is empty'') | (a, v) # rest \<Rightarrow> Inr v)"
  by (cases pvs) (auto simp: represents_def front_def empty_q_def split: option.splits)

lemma iterate_from_chain:
  "chain h p pvs \<Longrightarrow> iterate_from h p 0 = Some (Inr (map snd pvs))"
proof (induction pvs arbitrary: p)
  case Nil
  then show ?case by (subst iterate_from.simps) simp
next
  case (Cons av rest)
  obtain a v where av: "av = (a, v)" by (cases av)
  from Cons.prems av obtain n where
    n: "p = a" "a \<noteq> 0" "h a = Some n" "value_n n = v" "chain h (next_n n) rest"
    by (auto split: option.splits)
  from Cons.IH [OF n(5)] have "iterate_from h (next_n n) 0 = Some (Inr (map snd rest))" .
  then show ?case
    using n av by (subst iterate_from.simps) simp
qed

lemma iterate_represents:
  "represents q pvs \<Longrightarrow> iterate q = Some (Inr (map snd pvs))"
  by (simp add: represents_def iterate_def begin_q_def end_q_def iterate_from_chain)

lemma run_represents:
  assumes "represents q pvs" and "fresh_addresses (map fst pvs) calls"
  shows "\<exists>pvs'. represents (foldl apply_qcall q calls) pvs' \<and>
           map snd pvs' = foldl fifo (map snd pvs) calls"
  using assms
proof (induction calls arbitrary: q pvs)
  case Nil
  then show ?case by auto
next
  case (Cons c calls)
  show ?case
  proof (cases c)
    case (Push a v)
    with Cons.prems have f: "a \<noteq> 0" "a \<notin> fst ` set pvs"
      "fresh_addresses (map fst (pvs @ [(a, v)])) calls"
      by auto
    from emplace_represents [OF Cons.prems(1) f(1,2), of v]
    have "represents (apply_qcall q c) (pvs @ [(a, v)])"
      using Push by (simp add: push_def)
    from Cons.IH [OF this f(3)] show ?thesis
      using Push by simp
  next
    case Pop
    show ?thesis
    proof (cases pvs)
      case Nil
      with Cons.prems Pop have "represents (apply_qcall q c) []"
        by (simp add: pop_empty)
      moreover from Cons.prems Nil Pop have "fresh_addresses (map fst []) calls" by simp
      ultimately show ?thesis
        using Cons.IH [of "apply_qcall q c" "[]"] Nil Pop by simp
    next
      case (Cons av rest)
      obtain a v where av: "av = (a, v)" by (cases av)
      from pop_represents [of q a v rest] Cons.prems(1) Cons av Pop
      have r: "represents (apply_qcall q c) rest" by simp
      from \<open>fresh_addresses (map fst pvs) (c # calls)\<close> Cons Pop
      have "fresh_addresses (map fst rest) calls" by simp
      from Cons.IH [OF r this] show ?thesis
        using Cons Pop by (simp add: map_tl)
    qed
  qed
qed

section \<open>The tests of the repository (src/test.cpp)\<close>

text \<open>
  The scenarios of the allocator tests, run in the model. A
  \<^verbatim>\<open>std::pmr::polymorphic_allocator<std::byte>\<close> asks for \<open>n\<close> bytes with alignment 1, and one
  for a type of size and alignment 32 asks for 32 bytes with alignment 32; a node of a
  \<^verbatim>\<open>PmrQueue<int>\<close> has size 16 and alignment 8 on the platform modelled.
\<close>

lemma arena_of_construct: "c \<noteq> 0 \<Longrightarrow> construct c 64 (Inr 4096) = Inr (arena_of c)"
  by (simp add: construct_def arena_of_def)

lemma test_ReusesSameOffset:
  "fst (do_allocate (arena_of 128) 16 1) = Inr 4096 \<and>
   fst (do_allocate (run (arena_of 128) [Allocate 16 1]) 16 1) = Inr 4112 \<and>
   fst (do_allocate
     (run (arena_of 128) [Allocate 16 1, Allocate 16 1, Deallocate 4096 16 1]) 8 1) = Inr 4096 \<and>
   run (arena_of 128) [Allocate 16 1, Allocate 16 1, Deallocate 4096 16 1, Allocate 8 1,
     Deallocate 4112 16 1, Deallocate 4096 8 1] = arena_of 128"
  by (simp add: run_def arena_of_def alloc_eval do_deallocate_def)

lemma test_ThrowsOnOverflow:
  "fst (do_allocate (arena_of 32) 16 1) = Inr 4096 \<and>
   fst (do_allocate (run (arena_of 32) [Allocate 16 1]) 16 1) = Inr 4112 \<and>
   fst (do_allocate (run (arena_of 32) [Allocate 16 1, Allocate 16 1]) 1 1) =
     Inl bad_alloc \<and>
   fst (do_allocate
     (run (arena_of 32) [Allocate 16 1, Allocate 16 1, Deallocate 4096 16 1]) 16 1) = Inr 4096"
  by (simp add: run_def arena_of_def alloc_eval do_deallocate_def)

lemma test_RespectsAlignment:
  "do_allocate (arena_of 512) 32 32 =
     (Inr 4096, (arena_of 512)\<lparr>blocks_m := [\<lparr>offset = 0, size_b = 32\<rparr>]\<rparr>) \<and>
   (4096 :: ptr) mod 32 = 0 \<and>
   run (arena_of 512) [Allocate 32 32, Deallocate 4096 32 32] = arena_of 512"
  by (simp add: run_def arena_of_def alloc_eval do_deallocate_def)

lemma test_queue_node_addresses:
  "fst (do_allocate (arena_of 512) 16 8) = Inr 4096 \<and>
   fst (do_allocate (run (arena_of 512) [Allocate 16 8]) 16 8) = Inr 4112 \<and>
   fst (do_allocate (run (arena_of 512) [Allocate 16 8, Allocate 16 8]) 16 8) = Inr 4128"
  by (simp add: run_def arena_of_def alloc_eval)

text \<open>
  First fit, on an index whose gaps have the sizes 10, 5 and 20: a request of 8 or of 5
  bytes goes to the first gap though the last one is larger, one of 12 bytes to the
  last gap, one of 21 bytes fits nowhere; and a request of 4 bytes with alignment 32
  passes the gap \<open>[16, 21)\<close>, which holds 4 bytes but none at a multiple of 32.
\<close>

lemma first_fit_example:
  "fst (do_allocate ((arena_of 64)\<lparr>blocks_m :=
      [\<lparr>offset = 10, size_b = 6\<rparr>, \<lparr>offset = 21, size_b = 11\<rparr>, \<lparr>offset = 52, size_b = 12\<rparr>]\<rparr>)
      8 1) = Inr (4096 + 0) \<and>
   fst (do_allocate ((arena_of 64)\<lparr>blocks_m :=
      [\<lparr>offset = 10, size_b = 6\<rparr>, \<lparr>offset = 21, size_b = 11\<rparr>, \<lparr>offset = 52, size_b = 12\<rparr>]\<rparr>)
      12 1) = Inr (4096 + 32) \<and>
   fst (do_allocate ((arena_of 64)\<lparr>blocks_m :=
      [\<lparr>offset = 10, size_b = 6\<rparr>, \<lparr>offset = 21, size_b = 11\<rparr>, \<lparr>offset = 52, size_b = 12\<rparr>]\<rparr>)
      4 8) = Inr (4096 + 0) \<and>
   fst (do_allocate ((arena_of 64)\<lparr>blocks_m :=
      [\<lparr>offset = 10, size_b = 6\<rparr>, \<lparr>offset = 21, size_b = 11\<rparr>, \<lparr>offset = 52, size_b = 12\<rparr>]\<rparr>)
      5 1) = Inr (4096 + 0) \<and>
   fst (do_allocate ((arena_of 64)\<lparr>blocks_m :=
      [\<lparr>offset = 2, size_b = 14\<rparr>, \<lparr>offset = 21, size_b = 11\<rparr>, \<lparr>offset = 52, size_b = 12\<rparr>]\<rparr>)
      4 32) = Inr (4096 + 32) \<and>
   fst (do_allocate ((arena_of 64)\<lparr>blocks_m :=
      [\<lparr>offset = 10, size_b = 6\<rparr>, \<lparr>offset = 21, size_b = 11\<rparr>, \<lparr>offset = 52, size_b = 12\<rparr>]\<rparr>)
      21 1) = Inl bad_alloc"
  by (simp add: arena_of_def alloc_eval)

section \<open>Results\<close>

text \<open>
  C1 (the code departs from the claim). The sum \<^verbatim>\<open>aligned_offset + bytes\<close> of
  \<^verbatim>\<open>do_allocate\<close> wraps around for a request close to the largest \<^verbatim>\<open>size_t\<close>, and the
  check against \<^verbatim>\<open>capacity_\<close> then passes. In a resource of 32 bytes, after requests of
  16, of 18446744073709551600 and of 16 bytes the index holds two records with the
  same byte range: the third call returned the address the first call had returned,
  and byte 0 of the arena belongs to both. The index itself stays sorted by offset
  whatever the calls (\<open>index_always_sorted\<close>), and as long as no request leaves the
  range of \<^verbatim>\<open>size_t\<close> the live ranges stay disjoint (\<open>invariants_without_wrap\<close>).
\<close>

theorem overlap_after_wrapped_request:
  "fst (do_allocate arena32 16 1) = Inr 4096 \<and>
   fst (do_allocate (run arena32 [Allocate 16 1, Allocate 18446744073709551600 1]) 16 1) =
     Inr 4096 \<and>
   blocks_m (run arena32 [Allocate 16 1, Allocate 18446744073709551600 1, Allocate 16 1]) =
     [\<lparr>offset = 0, size_b = 16\<rparr>, \<lparr>offset = 0, size_b = 16\<rparr>,
      \<lparr>offset = 16, size_b = 18446744073709551600\<rparr>] \<and>
   0 \<in> byte_range \<lparr>offset = 0, size_b = 16\<rparr> \<inter> byte_range \<lparr>offset = 0, size_b = 16\<rparr>"
  by (simp add: run_def arena32_def alloc_eval byte_range_def)

text \<open>
  C2 (the code departs from the claim). With one record \<open>(0, 16)\<close> in a resource of 32
  bytes, no gap holds 18446744073709551600 bytes and the placement algorithm of the
  specification finds none, yet \<^verbatim>\<open>do_allocate\<close> returns the address at offset 16
  instead of throwing: the sum \<open>16 + 18446744073709551600\<close> wraps around to 0. For
  every request that stays within the range of \<^verbatim>\<open>size_t\<close> the scan of the source and
  the algorithm of the specification agree (\<open>do_allocate_refines_spec\<close>).
\<close>

theorem first_fit_accepts_wrapped_request:
  "blocks_m (run arena32 [Allocate 16 1]) = [\<lparr>offset = 0, size_b = 16\<rparr>] \<and>
   spec_first_fit (records_of (blocks_m (run arena32 [Allocate 16 1]))) 0
     (unat (18446744073709551600 :: size_t)) (unat (1 :: size_t))
     (unat (capacity_m arena32)) = None \<and>
   fst (do_allocate (run arena32 [Allocate 16 1]) 18446744073709551600 1) = Inr (4096 + 16)"
  by (simp add: run_def arena32_def alloc_eval records_of_def spec_align_up_def)




text \<open>
  C4 (the code departs from the claim). In a resource of 32 bytes, after requests of 16
  and of 18446744073709551600 bytes the index holds a record at offset 16 whose size is
  18446744073709551600: its range ends at \<open>2 ^ 64\<close>, far beyond the capacity. As long
  as no request leaves the range of \<^verbatim>\<open>size_t\<close> every record ends within the capacity
  (\<open>invariants_without_wrap\<close>), and no call changes the capacity (\<open>run_fixed\<close>).
\<close>

theorem capacity_exceeded_after_wrapped_request:
  "blocks_m (run arena32 [Allocate 16 1, Allocate 18446744073709551600 1]) =
     [\<lparr>offset = 0, size_b = 16\<rparr>, \<lparr>offset = 16, size_b = 18446744073709551600\<rparr>] \<and>
   capacity_m (run arena32 [Allocate 16 1, Allocate 18446744073709551600 1]) = 32 \<and>
   unat (16 :: size_t) + unat (18446744073709551600 :: size_t) = 2 ^ 64"
  by (simp add: run_def arena32_def alloc_eval)

text \<open>
  C5 (amended). The claim fails for the null pointer, which lies outside the arena and
  yet is accepted, and for a resource whose storage would reach the end of the
  address space, where \<^verbatim>\<open>buffer_ + capacity_\<close> wraps around. What holds, for a resource
  with \<open>buffer_ + capacity_ < 2 ^ 64\<close> and a pointer \<open>p\<close> that is not null: outside
  \<open>[buffer_, buffer_ + capacity_)\<close> the call throws \<^verbatim>\<open>std::logic_error\<close> with the message
  of a foreign pointer; inside, with no record at offset \<open>p - buffer_\<close>, it throws
  \<^verbatim>\<open>std::logic_error\<close> with the message of an unmanaged block; otherwise it removes
  exactly the record at that offset and nothing else. Neither hint has any influence
  on the result.
\<close>

theorem deallocate_cases:
  assumes "p \<noteq> nullptr" and "unat (buffer_m s) + unat (capacity_m s) < 2 ^ 64"
  shows
   "(unat p < unat (buffer_m s) \<or> unat (buffer_m s) + unat (capacity_m s) \<le> unat p \<longrightarrow>
       do_deallocate s p size_hint alignment_hint =
         (Inl (logic_error ''Pointer does not belong to this resource''), s)) \<and>
    (unat (buffer_m s) \<le> unat p \<and> unat p < unat (buffer_m s) + unat (capacity_m s) \<and>
     (\<forall>b \<in> set (blocks_m s). offset b \<noteq> p - buffer_m s) \<longrightarrow>
       do_deallocate s p size_hint alignment_hint =
         (Inl (logic_error ''Attempt to deallocate unmanaged block''), s)) \<and>
    (unat (buffer_m s) \<le> unat p \<and> unat p < unat (buffer_m s) + unat (capacity_m s) \<and>
     (\<exists>b \<in> set (blocks_m s). offset b = p - buffer_m s) \<longrightarrow>
       (\<exists>pre b post. blocks_m s = pre @ b # post \<and> offset b = p - buffer_m s \<and>
          (\<forall>x \<in> set pre. offset x \<noteq> p - buffer_m s) \<and>
          do_deallocate s p size_hint alignment_hint = (Inr (), s\<lparr>blocks_m := pre @ post\<rparr>)))"
proof (intro conjI impI)
  assume "unat p < unat (buffer_m s) \<or> unat (buffer_m s) + unat (capacity_m s) \<le> unat p"
  then have "p < buffer_m s \<or> p \<ge> buffer_m s + capacity_m s"
    using in_arena_iff [OF assms(2)] by simp
  then show "do_deallocate s p size_hint alignment_hint =
         (Inl (logic_error ''Pointer does not belong to this resource''), s)"
    using assms(1) by (simp add: do_deallocate_def)
next
  assume h: "unat (buffer_m s) \<le> unat p \<and> unat p < unat (buffer_m s) + unat (capacity_m s) \<and>
     (\<forall>b \<in> set (blocks_m s). offset b \<noteq> p - buffer_m s)"
  then have "\<not> (p < buffer_m s \<or> p \<ge> buffer_m s + capacity_m s)"
    using in_arena_iff [OF assms(2), of p] by simp
  moreover from h have "erase_offset (blocks_m s) (p - buffer_m s) = None"
    by (simp add: erase_offset_None)
  ultimately show "do_deallocate s p size_hint alignment_hint =
         (Inl (logic_error ''Attempt to deallocate unmanaged block''), s)"
    using assms(1) by (simp add: do_deallocate_def)
next
  assume h: "unat (buffer_m s) \<le> unat p \<and> unat p < unat (buffer_m s) + unat (capacity_m s) \<and>
     (\<exists>b \<in> set (blocks_m s). offset b = p - buffer_m s)"
  then have inside: "\<not> (p < buffer_m s \<or> p \<ge> buffer_m s + capacity_m s)"
    using in_arena_iff [OF assms(2), of p] by simp
  from h have "erase_offset (blocks_m s) (p - buffer_m s) \<noteq> None"
    by (simp add: erase_offset_None)
  then obtain bs' where e: "erase_offset (blocks_m s) (p - buffer_m s) = Some bs'"
    by blast
  from erase_offset_Some [OF e] obtain pre b post where
    d: "blocks_m s = pre @ b # post" "offset b = p - buffer_m s"
       "\<forall>x \<in> set pre. offset x \<noteq> p - buffer_m s" "bs' = pre @ post"
    by blast
  have "do_deallocate s p size_hint alignment_hint = (Inr (), s\<lparr>blocks_m := pre @ post\<rparr>)"
    using assms(1) inside e d(4) by (simp add: do_deallocate_def)
  with d show "\<exists>pre b post. blocks_m s = pre @ b # post \<and> offset b = p - buffer_m s \<and>
          (\<forall>x \<in> set pre. offset x \<noteq> p - buffer_m s) \<and>
          do_deallocate s p size_hint alignment_hint = (Inr (), s\<lparr>blocks_m := pre @ post\<rparr>)"
    by blast
qed

theorem deallocate_cases_witness:
  "do_deallocate (run arena32 [Allocate 16 1, Allocate 8 1]) 5000 8 1 =
     (Inl (logic_error ''Pointer does not belong to this resource''),
      run arena32 [Allocate 16 1, Allocate 8 1]) \<and>
   do_deallocate (run arena32 [Allocate 16 1, Allocate 8 1]) 4100 8 1 =
     (Inl (logic_error ''Attempt to deallocate unmanaged block''),
      run arena32 [Allocate 16 1, Allocate 8 1]) \<and>
   do_deallocate (run arena32 [Allocate 16 1, Allocate 8 1]) 4112 99 64 =
     (Inr (), run arena32 [Allocate 16 1])"
proof -
  let ?s = "run arena32 [Allocate 16 1, Allocate 8 1]"
  have s: "?s = \<lparr>capacity_m = 32, buffer_alignment_m = 64, buffer_m = 4096,
      blocks_m = [\<lparr>offset = 0, size_b = 16\<rparr>, \<lparr>offset = 16, size_b = 8\<rparr>]\<rparr>"
    by (simp add: run_def arena32_def alloc_eval)
  have s1: "run arena32 [Allocate 16 1] = \<lparr>capacity_m = 32, buffer_alignment_m = 64,
      buffer_m = 4096, blocks_m = [\<lparr>offset = 0, size_b = 16\<rparr>]\<rparr>"
    by (simp add: run_def arena32_def alloc_eval)
  have b: "unat (buffer_m ?s) + unat (capacity_m ?s) < 2 ^ 64"
    by (simp add: s)
  have n: "(5000 :: ptr) \<noteq> 0" "(4100 :: ptr) \<noteq> 0" "(4112 :: ptr) \<noteq> 0" by simp_all
  from deallocate_cases [OF n(1) b, of 8 1] deallocate_cases [OF n(2) b, of 8 1]
    deallocate_cases [OF n(3) b, of 99 64]
  show ?thesis
    by (simp add: s s1 do_deallocate_def)
qed

text \<open>
  The null pointer lies below the storage of the resource, and deallocating it does
  not throw. In a resource of the largest capacity, the address that \<^verbatim>\<open>do_allocate\<close> has
  just returned is not null, lies inside the arena and is the address of the record
  \<open>(0, 16)\<close>, and deallocating it throws as for a foreign pointer.
\<close>

theorem deallocate_nullptr_outside_arena:
  "unat (0 :: ptr) < unat (buffer_m arena32) \<and>
   fst (do_deallocate arena32 0 16 8) \<noteq>
     Inl (logic_error ''Pointer does not belong to this resource'') \<and>
   do_allocate arena_max 16 1 = (Inr 4096, run arena_max [Allocate 16 1]) \<and>
   blocks_m (run arena_max [Allocate 16 1]) = [\<lparr>offset = 0, size_b = 16\<rparr>] \<and>
   (4096 :: ptr) \<noteq> 0 \<and>
   unat (buffer_m (run arena_max [Allocate 16 1])) \<le> unat (4096 :: ptr) \<and>
   unat (4096 :: ptr) <
     unat (buffer_m (run arena_max [Allocate 16 1])) +
     unat (capacity_m (run arena_max [Allocate 16 1])) \<and>
   4096 - buffer_m (run arena_max [Allocate 16 1]) = 0 \<and>
   fst (do_deallocate (run arena_max [Allocate 16 1]) 4096 16 1) =
     Inl (logic_error ''Pointer does not belong to this resource'')"
  by (simp add: arena32_def arena_max_def run_def alloc_eval do_deallocate_def)

text \<open>
  C6 (the code departs from the claim). The test \<^verbatim>\<open>(a & (a - 1)) != 0\<close> does not reject
  the alignment 0, which is no power of two: the constructor goes on to acquire
  storage and returns a resource whose alignment ceiling is 0. For every other
  alignment the test is right (\<open>construct_invalid_iff\<close>), and no later call changes
  the capacity or the alignment ceiling (\<open>run_fixed\<close>).
\<close>

theorem construct_accepts_zero_alignment:
  "\<not> is_pow2 0 \<and>
   construct 32 0 (Inr 4096) =
     Inr \<lparr>capacity_m = 32, buffer_alignment_m = 0, buffer_m = 4096, blocks_m = []\<rparr>"
  by (simp add: construct_def is_pow2_def)




text \<open>
  C8. A call of \<^verbatim>\<open>do_allocate\<close> or \<^verbatim>\<open>do_deallocate\<close> that throws leaves the resource, its
  block index included, exactly as it was before the call, so that every later call
  behaves as it would have without the failed one.
\<close>

theorem failed_call_leaves_state:
  "(fst (do_allocate s bytes alignment) = Inl e \<longrightarrow> snd (do_allocate s bytes alignment) = s) \<and>
   (fst (do_deallocate s p size_hint alignment_hint) = Inl e' \<longrightarrow>
      snd (do_deallocate s p size_hint alignment_hint) = s)"
  by (auto simp: do_allocate_def do_deallocate_def commit_block_def Let_def split: option.splits)

theorem failed_call_leaves_state_witness:
  "fst (do_allocate arena32 33 1) = Inl bad_alloc \<and>
   snd (do_allocate arena32 33 1) = arena32 \<and>
   fst (do_deallocate arena32 4100 4 4) =
     Inl (logic_error ''Attempt to deallocate unmanaged block'') \<and>
   snd (do_deallocate arena32 4100 4 4) = arena32"
proof -
  have a: "fst (do_allocate arena32 33 1) = Inl bad_alloc"
    by (simp add: arena32_def alloc_eval)
  have d: "fst (do_deallocate arena32 4100 4 4) =
      Inl (logic_error ''Attempt to deallocate unmanaged block'')"
    by (simp add: arena32_def do_deallocate_def)
  from failed_call_leaves_state [of arena32 33 1 bad_alloc 4100 4 4
      "logic_error ''Attempt to deallocate unmanaged block''"] a d
  show ?thesis by simp
qed

text \<open>
  C9. For every sequence of \<^verbatim>\<open>push\<close> and \<^verbatim>\<open>pop\<close> calls in which the memory resource hands
  out, for each new node, an address that is not null and not that of a live node,
  the queue behaves as the first-in-first-out list: forward iteration from \<^verbatim>\<open>begin()\<close>
  to \<^verbatim>\<open>end()\<close> ends and reads exactly the live elements in the order of their
  insertion, \<^verbatim>\<open>front\<close> is the oldest of them (or throws when there is none), and
  \<^verbatim>\<open>empty\<close> tells whether there is one. Pushing 1, 2, 3 and popping therefore shows
  1, 2, 3 at the front in turn. \<^verbatim>\<open>CustomBlockMemoryResource\<close> hands out such addresses
  as long as its index is sound (\<open>do_allocate_fresh\<close>).
\<close>

theorem queue_fifo:
  assumes "fresh_addresses [] calls"
  shows "iterate (run_q calls) = Some (Inr (foldl fifo [] calls)) \<and>
         front (run_q calls) =
           (case foldl fifo [] calls of
              [] \<Rightarrow> Inl (out_of_range ''Queue is empty'')
            | v # vs \<Rightarrow> Inr v) \<and>
         empty_q (run_q calls) = (foldl fifo [] calls = [])"
proof -
  from run_represents [OF represents_new, of calls] assms obtain pvs where
    r: "represents (run_q calls) pvs" and m: "map snd pvs = foldl fifo [] calls"
    by (auto simp: run_q_def)
  from front_represents [OF r] m [symmetric] have "front (run_q calls) =
           (case foldl fifo [] calls of
              [] \<Rightarrow> Inl (out_of_range ''Queue is empty'')
            | v # vs \<Rightarrow> Inr v)"
    by (cases pvs) auto
  moreover from represents_empty [OF r] m [symmetric] have "empty_q (run_q calls) = (foldl fifo [] calls = [])"
    by auto
  ultimately show ?thesis
    using iterate_represents [OF r] m by simp
qed

theorem queue_fifo_witness:
  "fresh_addresses [] [Push 4096 (1::int), Push 4112 2, Push 4128 3, Pop, Push 4096 4] \<and>
   front (run_q [Push 4096 (1::int), Push 4112 2, Push 4128 3]) = Inr 1 \<and>
   front (run_q [Push 4096 (1::int), Push 4112 2, Push 4128 3, Pop]) = Inr 2 \<and>
   front (run_q [Push 4096 (1::int), Push 4112 2, Push 4128 3, Pop, Pop]) = Inr 3 \<and>
   empty_q (run_q [Push 4096 (1::int), Push 4112 2, Push 4128 3, Pop, Pop, Pop]) \<and>
   iterate (run_q [Push 4096 (5::int), Push 4112 6, Push 4128 7]) = Some (Inr [5, 6, 7]) \<and>
   iterate (run_q [Push 4096 (1::int), Push 4112 2, Push 4128 3, Pop, Push 4096 4]) =
     Some (Inr [2, 3, 4])"
proof -
  have f: "fresh_addresses [] [Push 4096 (1::int), Push 4112 2, Push 4128 3]"
    "fresh_addresses [] [Push 4096 (1::int), Push 4112 2, Push 4128 3, Pop]"
    "fresh_addresses [] [Push 4096 (1::int), Push 4112 2, Push 4128 3, Pop, Pop]"
    "fresh_addresses [] [Push 4096 (1::int), Push 4112 2, Push 4128 3, Pop, Pop, Pop]"
    "fresh_addresses [] [Push 4096 (5::int), Push 4112 6, Push 4128 7]"
    "fresh_addresses [] [Push 4096 (1::int), Push 4112 2, Push 4128 3, Pop, Push 4096 4]"
    by simp_all
  from queue_fifo [OF f(1)] queue_fifo [OF f(2)] queue_fifo [OF f(3)] queue_fifo [OF f(4)]
    queue_fifo [OF f(5)] queue_fifo [OF f(6)] f(6)
  show ?thesis by simp
qed

text \<open>
  C10. Deallocating the null pointer, with any size and alignment hints, returns
  normally and leaves the whole allocator, its block index included, as it was.
\<close>

theorem deallocate_nullptr_noop:
  "do_deallocate s nullptr size_hint alignment_hint = (Inr (), s)"
  by (simp add: do_deallocate_def)

end
